theory Spec2Isabelle
  imports Main "HOL-Library.Word"
begin

section \<open>Memory limit controller\<close>

text \<open>
  Go's \<^verbatim>\<open>int64\<close> is a 64-bit two's-complement word: \<open>+\<close> and \<open>-\<close> wrap around,
  comparisons are signed (\<open><s\<close>, \<open>\<le>s\<close>).
\<close>

type_synonym int64 = "64 word"

text \<open>
  The struct \<^verbatim>\<open>memoryLimitController\<close>. The field \<^verbatim>\<open>chCond\<close> (a condition variable
  declared elsewhere) is used by the functions below only through \<^verbatim>\<open>broadcast()\<close>; it is
  represented by the number of broadcasts issued so far.
\<close>

record memoryLimitController =
  limit :: int64
  currentUsage :: int64
  broadcasts :: nat

definition NewMemoryLimitController :: "int64 \<Rightarrow> memoryLimitController" where
  "NewMemoryLimitController l = \<lparr>limit = l, currentUsage = 0, broadcasts = 0\<rparr>"

definition IsMemoryLimited :: "memoryLimitController \<Rightarrow> bool" where
  "IsMemoryLimited m = (0 <s limit m)"

definition CurrentUsage :: "memoryLimitController \<Rightarrow> int64" where
  "CurrentUsage m = currentUsage m"

text \<open>
  The compare-and-swap loop of \<^verbatim>\<open>TryReserveMemory\<close>. Each iteration loads
  \<^verbatim>\<open>currentUsage\<close>, computes \<^verbatim>\<open>current + size\<close>, returns false when the limit is
  enforced and \<^verbatim>\<open>current > limit\<close>, and otherwise attempts the compare-and-swap. The list
  argument is the contention met by the call: its head is the value that other goroutines
  have left in \<^verbatim>\<open>currentUsage\<close> between this iteration's load and its compare-and-swap.
  The swap succeeds when that value equals the value loaded; otherwise the loop starts
  again and loads the new value. With no contention left the swap succeeds.
\<close>

fun TryReserveMemory_loop ::
  "int64 \<Rightarrow> int64 list \<Rightarrow> memoryLimitController \<Rightarrow> bool \<times> memoryLimitController" where
  "TryReserveMemory_loop sz [] m =
     (let current = currentUsage m; newUsage = current + sz
      in if IsMemoryLimited m \<and> limit m <s current then (False, m)
         else (True, m\<lparr>currentUsage := newUsage\<rparr>))"
| "TryReserveMemory_loop sz (seen # others) m =
     (let current = currentUsage m; newUsage = current + sz
      in if IsMemoryLimited m \<and> limit m <s current then (False, m)
         else if seen = current then (True, m\<lparr>currentUsage := newUsage\<rparr>)
         else TryReserveMemory_loop sz others (m\<lparr>currentUsage := seen\<rparr>))"

text \<open>A call that meets no contention: the sequential behaviour.\<close>

definition TryReserveMemory :: "int64 \<Rightarrow> memoryLimitController \<Rightarrow> bool \<times> memoryLimitController" where
  "TryReserveMemory sz m = TryReserveMemory_loop sz [] m"

definition ForceReserveMemory :: "int64 \<Rightarrow> memoryLimitController \<Rightarrow> memoryLimitController" where
  "ForceReserveMemory sz m = m\<lparr>currentUsage := currentUsage m + sz\<rparr>"

text \<open>
  \<^verbatim>\<open>ReleaseMemory\<close>: \<^verbatim>\<open>atomic.AddInt64\<close> returns the new value; the test is written as
  in the source, on \<^verbatim>\<open>newUsage + size\<close>.
\<close>

definition ReleaseMemory :: "int64 \<Rightarrow> memoryLimitController \<Rightarrow> memoryLimitController" where
  "ReleaseMemory sz m =
     (let newUsage = currentUsage m + (- sz);
          m' = m\<lparr>currentUsage := newUsage\<rparr>
      in if limit m <s newUsage + sz \<and> newUsage \<le>s limit m
         then m'\<lparr>broadcasts := broadcasts m + 1\<rparr>
         else m')"

text \<open>
  Sequential call sequences of \<^verbatim>\<open>TryReserveMemory\<close> and \<^verbatim>\<open>ReleaseMemory\<close>. The run
  carries, beside the controller, the size of the most recent reservation that was
  granted (\<open>0\<close> before the first one).
\<close>

datatype memOp = TryReserve int64 | Release int64

fun run_ops :: "memOp list \<Rightarrow> memoryLimitController \<times> int \<Rightarrow> memoryLimitController \<times> int" where
  "run_ops [] (m, g) = (m, g)"
| "run_ops (TryReserve sz # ops) (m, g) =
     (case TryReserveMemory sz m of
        (True, m') \<Rightarrow> run_ops ops (m', sint sz)
      | (False, m') \<Rightarrow> run_ops ops (m', g))"
| "run_ops (Release sz # ops) (m, g) = run_ops ops (ReleaseMemory sz m, g)"

text \<open>
  The property "usage exceeds the limit by at most the size of one granted reservation",
  read on the mathematical values of the 64-bit quantities.
\<close>

definition overshoot_bounded :: "memOp list \<Rightarrow> memoryLimitController \<Rightarrow> bool" where
  "overshoot_bounded ops m =
     (case run_ops ops (m, 0) of
        (m', g) \<Rightarrow> sint (CurrentUsage m') \<le> sint (limit m) + g)"

text \<open>
  Call sequences in which the sizes released are not negative and no call takes the
  64-bit counter below its least value (a granted reservation of a negative size, or a
  release).
\<close>

fun plain_ops :: "memOp list \<Rightarrow> memoryLimitController \<Rightarrow> bool" where
  "plain_ops [] m = True"
| "plain_ops (TryReserve sz # ops) m =
     ((fst (TryReserveMemory sz m) \<longrightarrow> - (2 ^ 63) \<le> sint (currentUsage m) + sint sz)
      \<and> plain_ops ops (snd (TryReserveMemory sz m)))"
| "plain_ops (Release sz # ops) m =
     (0 \<le> sint sz \<and> - (2 ^ 63) \<le> sint (currentUsage m) - sint sz
      \<and> plain_ops ops (ReleaseMemory sz m))"

section \<open>Acknowledgment grouping tracker\<close>

subsection \<open>Message identifiers\<close>

text \<open>
  \<^verbatim>\<open>MessageID\<close> is an interface declared outside this file, and so are the helpers
  \<^verbatim>\<open>messageIDCompare\<close>, \<^verbatim>\<open>messageIDHash\<close>, \<^verbatim>\<open>messageIDIsBatch\<close> and
  \<^verbatim>\<open>EarliestMessageID\<close>. The tracker uses an identifier only through these four and
  through the methods \<^verbatim>\<open>BatchIdx()\<close> and \<^verbatim>\<open>BatchSize()\<close>, whose results the tracker
  converts with \<^verbatim>\<open>uint(...)\<close> and \<^verbatim>\<open>int(...)\<close>; they are taken to be 32-bit signed
  integers. All six are parameters: \<open>'id\<close> is the type of (non-nil) identifiers and the
  record below holds the six operations.
\<close>

type_synonym int32 = "32 word"

record 'id messageIDs =
  messageIDCompare :: "'id \<Rightarrow> 'id \<Rightarrow> int"
  messageIDHash :: "'id \<Rightarrow> int64"
  messageIDIsBatch :: "'id \<Rightarrow> bool"
  EarliestMessageID :: "'id"
  BatchIdx :: "'id \<Rightarrow> int32"
  BatchSize :: "'id \<Rightarrow> int32"

text \<open>
  The specification calls identifiers totally ordered. What the proofs below use of
  it: the sign of a comparison flips with its arguments, and "at most" is transitive.
\<close>

definition messageID_total_order :: "'id messageIDs \<Rightarrow> bool" where
  "messageID_total_order M =
     ((\<forall>x y. (messageIDCompare M x y < 0) = (0 < messageIDCompare M y x))
      \<and> (\<forall>x y z. messageIDCompare M x y \<le> 0 \<and> messageIDCompare M y z \<le> 0
            \<longrightarrow> messageIDCompare M x z \<le> 0))"

text \<open>Go's conversion \<^verbatim>\<open>uint(x)\<close> of an \<^verbatim>\<open>int32\<close>: sign extension to 64 bits.\<close>

definition uint_of_int32 :: "int32 \<Rightarrow> nat" where
  "uint_of_int32 x = unat (scast x :: 64 word)"

subsection \<open>Bit sets\<close>

text \<open>
  The bit sets of the library \<^verbatim>\<open>bits-and-blooms/bitset\<close>, as lists of bits: \<^verbatim>\<open>New(n)\<close>
  has \<open>n\<close> cleared bits, \<^verbatim>\<open>Set(i)\<close> sets bit \<open>i\<close> and extends the set when \<open>i\<close> is beyond
  its length, \<^verbatim>\<open>Clear(i)\<close> clears bit \<open>i\<close> and does nothing beyond the length,
  \<^verbatim>\<open>Test(i)\<close> is false beyond the length, \<^verbatim>\<open>None()\<close> holds when no bit is set.
\<close>

type_synonym BitSet = "bool list"

definition bitset_New :: "nat \<Rightarrow> BitSet" where
  "bitset_New n = replicate n False"

definition bitset_Set :: "nat \<Rightarrow> BitSet \<Rightarrow> BitSet" where
  "bitset_Set i b =
     (if i < length b then b[i := True] else b @ replicate (i - length b) False @ [True])"

definition bitset_Clear :: "nat \<Rightarrow> BitSet \<Rightarrow> BitSet" where
  "bitset_Clear i b = (if i < length b then b[i := False] else b)"

definition bitset_Test :: "nat \<Rightarrow> BitSet \<Rightarrow> bool" where
  "bitset_Test i b = (i < length b \<and> b ! i)"

definition bitset_None :: "BitSet \<Rightarrow> bool" where
  "bitset_None b = (True \<notin> set b)"

subsection \<open>The cached acknowledgments\<close>

text \<open>
  The struct \<^verbatim>\<open>cachedAcks\<close>. A slot of \<^verbatim>\<open>singleAcks\<close> is \<open>None\<close> while it holds the nil
  interface value that \<^verbatim>\<open>make\<close> puts there. A value of \<^verbatim>\<open>pendingAcks\<close> is \<open>None\<close> for a
  nil bit set pointer; every key owns the bit set it points to. The injected callbacks
  \<^verbatim>\<open>ackIndividual\<close> and \<^verbatim>\<open>ackCumulative\<close> are represented by the lists of the
  identifiers they have been called with, in call order.
\<close>

record 'id cachedAcks =
  singleAcks :: "'id option list"
  index :: nat
  pendingAcks :: "int64 \<rightharpoonup> BitSet option"
  lastCumulativeAck :: 'id
  cumulativeAckRequired :: bool
  ackIndividualCalls :: "'id list"
  ackCumulativeCalls :: "'id list"

datatype failure = IndexOutOfRange | NilMessageID | Blocked

text \<open>
  \<^verbatim>\<open>addAndCheckIfFull\<close>. Writing \<^verbatim>\<open>singleAcks[index]\<close> beyond the slice panics. A new
  batch entry is \<^verbatim>\<open>bitset.New(uint(BatchSize))\<close> with the bits below \<^verbatim>\<open>int(BatchSize)\<close>
  set one by one.
\<close>

definition addAndCheckIfFull ::
  "'id messageIDs \<Rightarrow> 'id \<Rightarrow> 'id cachedAcks \<Rightarrow> failure + (bool \<times> 'id cachedAcks)" where
  "addAndCheckIfFull M mid t =
     (if length (singleAcks t) \<le> index t then Inl IndexOutOfRange
      else
        let t1 = t\<lparr>singleAcks := (singleAcks t)[index t := Some mid], index := index t + 1\<rparr>;
            key = messageIDHash M mid;
            (ackSet, pending) =
              (case pendingAcks t1 key of
                 Some found \<Rightarrow> (found, pendingAcks t1)
               | None \<Rightarrow>
                   if messageIDIsBatch M mid then
                     let fresh = fold bitset_Set [0 ..< nat (sint (BatchSize M mid))]
                                   (bitset_New (uint_of_int32 (BatchSize M mid)))
                     in (Some fresh, (pendingAcks t1)(key \<mapsto> Some fresh))
                   else (None, (pendingAcks t1)(key \<mapsto> None)));
            pending' =
              (case ackSet of
                 None \<Rightarrow> pending
               | Some b \<Rightarrow> pending(key \<mapsto> Some (bitset_Clear (uint_of_int32 (BatchIdx M mid)) b)))
        in Inr (index t1 = length (singleAcks t1), t1\<lparr>pendingAcks := pending'\<rparr>))"

definition tryUpdateLastCumulativeAck ::
  "'id messageIDs \<Rightarrow> 'id \<Rightarrow> 'id cachedAcks \<Rightarrow> 'id cachedAcks" where
  "tryUpdateLastCumulativeAck M mid t =
     (if messageIDCompare M (lastCumulativeAck t) mid < 0
      then t\<lparr>lastCumulativeAck := mid, cumulativeAckRequired := True\<rparr>
      else t)"

definition isDuplicate :: "'id messageIDs \<Rightarrow> 'id \<Rightarrow> 'id cachedAcks \<Rightarrow> bool" where
  "isDuplicate M mid t =
     (if 0 \<le> messageIDCompare M (lastCumulativeAck t) mid then True
      else
        case pendingAcks t (messageIDHash M mid) of
          None \<Rightarrow> False
        | Some ackSet \<Rightarrow>
            (case ackSet of
               None \<Rightarrow> True
             | Some b \<Rightarrow>
                 if \<not> messageIDIsBatch M mid then True
                 else \<not> bitset_Test (uint_of_int32 (BatchIdx M mid)) b))"

text \<open>
  The closure \<^verbatim>\<open>ackList\<close> calls \<^verbatim>\<open>ackIndividual\<close> once for every identifier of the
  slice, in order.
\<close>

definition ackIndividual :: "'id \<Rightarrow> 'id cachedAcks \<Rightarrow> 'id cachedAcks" where
  "ackIndividual mid t = t\<lparr>ackIndividualCalls := ackIndividualCalls t @ [mid]\<rparr>"

definition ackCumulative :: "'id \<Rightarrow> 'id cachedAcks \<Rightarrow> 'id cachedAcks" where
  "ackCumulative mid t = t\<lparr>ackCumulativeCalls := ackCumulativeCalls t @ [mid]\<rparr>"

definition ackList :: "'id list \<Rightarrow> 'id cachedAcks \<Rightarrow> 'id cachedAcks" where
  "ackList ids t = fold ackIndividual ids t"

text \<open>
  The body of the loop of \<^verbatim>\<open>flushIndividualAcks\<close> for one identifier of the buffer:
  nothing when the key is absent (\<^verbatim>\<open>continue\<close>); otherwise the entry is deleted when
  it is nil or when clearing the identifier's bit leaves no bit set, and then the
  last statement of the body deletes the key in every case.
\<close>

definition flushIndividualAcks_body ::
  "'id messageIDs \<Rightarrow> 'id \<Rightarrow> (int64 \<rightharpoonup> BitSet option) \<Rightarrow> (int64 \<rightharpoonup> BitSet option)" where
  "flushIndividualAcks_body M mid pending =
     (let key = messageIDHash M mid in
      case pending key of
        None \<Rightarrow> pending
      | Some ackSet \<Rightarrow>
          let pending1 =
            (case ackSet of
               None \<Rightarrow> pending(key := None)
             | Some b \<Rightarrow>
                 let b' = bitset_Clear (uint_of_int32 (BatchIdx M mid)) b
                 in if bitset_None b' then pending(key := None)
                    else pending(key \<mapsto> Some b'))
          in pending1(messageIDHash M mid := None))"

text \<open>
  \<^verbatim>\<open>flushIndividualAcks\<close>. Slicing \<^verbatim>\<open>singleAcks[0:index]\<close> beyond the slice panics, and
  so does hashing a nil identifier; in both cases the model returns the failure.
\<close>

definition flushIndividualAcks ::
  "'id messageIDs \<Rightarrow> 'id cachedAcks \<Rightarrow> failure + 'id cachedAcks" where
  "flushIndividualAcks M t =
     (if 0 < index t then
        if length (singleAcks t) < index t then Inl IndexOutOfRange
        else
          let ids = take (index t) (singleAcks t) in
          if None \<in> set ids then Inl NilMessageID
          else
            let t1 = ackList (map the ids) t
            in Inr (t1\<lparr>pendingAcks := fold (flushIndividualAcks_body M) (map the ids) (pendingAcks t1),
                       index := 0\<rparr>)
      else Inr t)"

definition flushCumulativeAck :: "'id cachedAcks \<Rightarrow> 'id cachedAcks" where
  "flushCumulativeAck t =
     (if cumulativeAckRequired t
      then (ackCumulative (lastCumulativeAck t) t)\<lparr>cumulativeAckRequired := False\<rparr>
      else t)"

definition flush :: "'id messageIDs \<Rightarrow> 'id cachedAcks \<Rightarrow> failure + 'id cachedAcks" where
  "flush M t =
     (case flushIndividualAcks M t of
        Inl e \<Rightarrow> Inl e
      | Inr t1 \<Rightarrow> Inr (flushCumulativeAck t1))"

definition clean :: "'id messageIDs \<Rightarrow> 'id cachedAcks \<Rightarrow> 'id cachedAcks" where
  "clean M t =
     (let maxSize = length (singleAcks t)
      in t\<lparr>singleAcks := replicate maxSize None,
           index := 0,
           pendingAcks := Map.empty,
           lastCumulativeAck := EarliestMessageID M,
           cumulativeAckRequired := False\<rparr>)"

subsection \<open>The tracker and its loop\<close>

text \<open>
  Modelled from the spec: the struct \<^verbatim>\<open>AckGroupingOptions\<close> is declared outside this
  file. It has the two fields the constructor reads, \<^verbatim>\<open>MaxSize\<close> (a number of
  acknowledgments) and \<^verbatim>\<open>MaxTime\<close> (a duration, in nanoseconds). The passing of time is not part of the model: the timer is represented
  by the event \<open>timeoutC\<close>, which may arrive at any point, and restarting or stopping
  the timer changes nothing in the state.
\<close>

record AckGroupingOptions =
  MaxSize :: int
  MaxTime :: int

datatype ackFlushType = flushOnly | flushAndClean | flushAndClose

text \<open>What the loop receives in one iteration of its \<^verbatim>\<open>select\<close>, and what it sends back.\<close>

datatype 'id received =
    ackIndividualCh 'id
  | ackCumulativeCh 'id
  | duplicateIDCh 'id
  | timeoutC
  | flushCh ackFlushType

datatype sent = nothing | duplicateResultCh bool | waitFlushCh bool

text \<open>
  One iteration of the loop of the goroutine started by \<^verbatim>\<open>newAckGroupingTracker\<close>. The
  last component of the result tells whether the loop goes on; it ends after a
  \<open>flushAndClose\<close>.
\<close>

definition loop_iteration ::
  "'id messageIDs \<Rightarrow> AckGroupingOptions \<Rightarrow> 'id received \<Rightarrow> 'id cachedAcks
     \<Rightarrow> failure + ('id cachedAcks \<times> sent \<times> bool)" where
  "loop_iteration M options ev c =
     (case ev of
        ackIndividualCh mid \<Rightarrow>
          (case addAndCheckIfFull M mid c of
             Inl e \<Rightarrow> Inl e
           | Inr (full, c1) \<Rightarrow>
               if full then
                 (case flushIndividualAcks M c1 of
                    Inl e \<Rightarrow> Inl e
                  | Inr c2 \<Rightarrow> Inr (c2, nothing, True))
               else Inr (c1, nothing, True))
      | ackCumulativeCh mid \<Rightarrow>
          (let c1 = tryUpdateLastCumulativeAck M mid c
           in if MaxTime options \<le> 0 then Inr (flushCumulativeAck c1, nothing, True)
              else Inr (c1, nothing, True))
      | duplicateIDCh mid \<Rightarrow> Inr (c, duplicateResultCh (isDuplicate M mid c), True)
      | timeoutC \<Rightarrow>
          (case flush M c of
             Inl e \<Rightarrow> Inl e
           | Inr c1 \<Rightarrow> Inr (c1, nothing, True))
      | flushCh ackFlushType \<Rightarrow>
          (case flush M c of
             Inl e \<Rightarrow> Inl e
           | Inr c1 \<Rightarrow>
               let c2 = (if ackFlushType = flushAndClean then clean M c1 else c1)
               in Inr (c2, waitFlushCh True, ackFlushType \<noteq> flushAndClose)))"

text \<open>
  The two implementations of the interface \<^verbatim>\<open>ackGroupingTracker\<close>. The immediate one
  holds its two callbacks (the identifiers they were called with). The timed one is
  its loop: the options and the \<^verbatim>\<open>cachedAcks\<close> captured by the goroutine, and whether
  the goroutine is still running.
\<close>

datatype 'id ackGroupingTracker =
    immediateAckGroupingTracker "'id list" "'id list"
  | timedAckGroupingTracker AckGroupingOptions "'id cachedAcks" bool

definition newAckGroupingTracker ::
  "'id messageIDs \<Rightarrow> AckGroupingOptions option \<Rightarrow> 'id ackGroupingTracker" where
  "newAckGroupingTracker M given =
     (let options = (case given of
                       None \<Rightarrow> \<lparr>MaxSize = 1000, MaxTime = 100 * 1000000\<rparr>
                     | Some opts \<Rightarrow> opts)
      in if MaxSize options \<le> 1 then immediateAckGroupingTracker [] []
         else timedAckGroupingTracker options
                \<lparr>singleAcks = replicate (nat (MaxSize options)) None,
                 index = 0,
                 pendingAcks = Map.empty,
                 lastCumulativeAck = EarliestMessageID M,
                 cumulativeAckRequired = False,
                 ackIndividualCalls = [],
                 ackCumulativeCalls = []\<rparr>
                True)"

text \<open>
  A call of a method of the tracker. The timed tracker sends on the channel of the
  method and, for \<^verbatim>\<open>isDuplicate\<close> and the three flushes, waits for the answer; the loop
  handles it in one iteration. Once the goroutine has returned nobody receives and the
  caller blocks for ever (\<open>Blocked\<close>). The immediate tracker calls its callbacks at
  once, answers false to \<^verbatim>\<open>isDuplicate\<close> and does nothing on a flush; it has no timer.
\<close>

fun deliver ::
  "'id messageIDs \<Rightarrow> 'id received \<Rightarrow> 'id ackGroupingTracker
     \<Rightarrow> failure + ('id ackGroupingTracker \<times> sent)" where
  "deliver M ev (timedAckGroupingTracker options c running) =
     (if \<not> running then Inl Blocked
      else
        case loop_iteration M options ev c of
          Inl e \<Rightarrow> Inl e
        | Inr (c', answer, goes_on) \<Rightarrow> Inr (timedAckGroupingTracker options c' goes_on, answer))"
| "deliver M (ackIndividualCh mid) (immediateAckGroupingTracker individual cumulative) =
     Inr (immediateAckGroupingTracker (individual @ [mid]) cumulative, nothing)"
| "deliver M (ackCumulativeCh mid) (immediateAckGroupingTracker individual cumulative) =
     Inr (immediateAckGroupingTracker individual (cumulative @ [mid]), nothing)"
| "deliver M (duplicateIDCh mid) (immediateAckGroupingTracker individual cumulative) =
     Inr (immediateAckGroupingTracker individual cumulative, duplicateResultCh False)"
| "deliver M timeoutC (immediateAckGroupingTracker individual cumulative) =
     Inr (immediateAckGroupingTracker individual cumulative, nothing)"
| "deliver M (flushCh ackFlushType) (immediateAckGroupingTracker individual cumulative) =
     Inr (immediateAckGroupingTracker individual cumulative, nothing)"

definition tracker_add ::
  "'id messageIDs \<Rightarrow> 'id \<Rightarrow> 'id ackGroupingTracker \<Rightarrow> failure + 'id ackGroupingTracker" where
  "tracker_add M mid t = map_sum (\<lambda>e. e) fst (deliver M (ackIndividualCh mid) t)"

definition tracker_addCumulative ::
  "'id messageIDs \<Rightarrow> 'id \<Rightarrow> 'id ackGroupingTracker \<Rightarrow> failure + 'id ackGroupingTracker" where
  "tracker_addCumulative M mid t = map_sum (\<lambda>e. e) fst (deliver M (ackCumulativeCh mid) t)"

definition tracker_isDuplicate ::
  "'id messageIDs \<Rightarrow> 'id \<Rightarrow> 'id ackGroupingTracker \<Rightarrow> failure + bool" where
  "tracker_isDuplicate M mid t =
     (case deliver M (duplicateIDCh mid) t of
        Inl e \<Rightarrow> Inl e
      | Inr (t', answer) \<Rightarrow>
          (case answer of duplicateResultCh b \<Rightarrow> Inr b | _ \<Rightarrow> Inl Blocked))"

definition tracker_flush ::
  "'id messageIDs \<Rightarrow> 'id ackGroupingTracker \<Rightarrow> failure + 'id ackGroupingTracker" where
  "tracker_flush M t = map_sum (\<lambda>e. e) fst (deliver M (flushCh flushOnly) t)"


definition tracker_close ::
  "'id messageIDs \<Rightarrow> 'id ackGroupingTracker \<Rightarrow> failure + 'id ackGroupingTracker" where
  "tracker_close M t = map_sum (\<lambda>e. e) fst (deliver M (flushCh flushAndClose) t)"

text \<open>A sequence of calls and timer events, handled one after the other.\<close>

fun run ::
  "'id messageIDs \<Rightarrow> 'id received list \<Rightarrow> 'id ackGroupingTracker
     \<Rightarrow> failure + 'id ackGroupingTracker" where
  "run M [] t = Inr t"
| "run M (ev # evs) t =
     (case deliver M ev t of
        Inl e \<Rightarrow> Inl e
      | Inr (t', answer) \<Rightarrow> run M evs t')"

text \<open>The answer of \<^verbatim>\<open>isDuplicate(id)\<close> after a sequence, and the entry of a key then.\<close>

definition isDuplicate_after ::
  "'id messageIDs \<Rightarrow> 'id received list \<Rightarrow> 'id ackGroupingTracker \<Rightarrow> 'id \<Rightarrow> failure + bool" where
  "isDuplicate_after M evs t mid =
     (case run M evs t of
        Inl e \<Rightarrow> Inl e
      | Inr t' \<Rightarrow> tracker_isDuplicate M mid t')"

fun cachedAcks_of :: "'id ackGroupingTracker \<Rightarrow> 'id cachedAcks option" where
  "cachedAcks_of (timedAckGroupingTracker options c running) = Some c"
| "cachedAcks_of (immediateAckGroupingTracker individual cumulative) = None"

definition pendingAcks_after ::
  "'id messageIDs \<Rightarrow> 'id received list \<Rightarrow> 'id ackGroupingTracker \<Rightarrow> int64
     \<Rightarrow> failure + BitSet option option" where
  "pendingAcks_after M evs t key =
     (case run M evs t of
        Inl e \<Rightarrow> Inl e
      | Inr t' \<Rightarrow>
          (case cachedAcks_of t' of
             None \<Rightarrow> Inr None
           | Some c \<Rightarrow> Inr (pendingAcks c key)))"

text \<open>
  The buffer of a running tracker: the cursor is inside the slice and the slots below
  it hold identifiers.
\<close>

definition buffer_ok :: "'id cachedAcks \<Rightarrow> bool" where
  "buffer_ok c = (index c < length (singleAcks c) \<and> None \<notin> set (take (index c) (singleAcks c)))"

subsection \<open>An instance of the identifiers\<close>

text \<open>
  Modelled from the spec: the type \<^verbatim>\<open>MessageID\<close> and its helpers are not in this file.
  The specification describes an identifier as a position (ledger and entry
  coordinates) with optional batch coordinates (batch index, batch size), compared by
  position first and batch index second, non-batched when its batch size is at most 1,
  hashed on its non-batch position, with a logical earliest identifier. The instance
  below follows these words; the hash function and the coordinates of the earliest
  identifier are choices that the words leave open. It serves the concrete runs only:
  the general statements hold for every instance.
\<close>

text \<open>
  Modelled from the spec: the implementation of \<^verbatim>\<open>MessageID\<close> is not in this file; an
  identifier has ledger and entry coordinates and batch coordinates.
\<close>

record messageID =
  ledgerID :: int64
  entryID :: int64
  batchIdx :: int32
  batchSize :: int32

text \<open>
  Modelled from the spec: \<^verbatim>\<open>messageIDCompare\<close> is not in this file; identifiers
  "compare by position first, batch index second".
\<close>

definition compare_positions :: "messageID \<Rightarrow> messageID \<Rightarrow> int" where
  "compare_positions a b =
     (if ledgerID a <s ledgerID b then - 1
      else if ledgerID b <s ledgerID a then 1
      else if entryID a <s entryID b then - 1
      else if entryID b <s entryID a then 1
      else if batchIdx a <s batchIdx b then - 1
      else if batchIdx b <s batchIdx a then 1
      else 0)"

text \<open>
  Modelled from the spec: \<^verbatim>\<open>messageIDHash\<close> is not in this file; the key is "a hash of a
  message's non-batch position".
\<close>

definition position_hash :: "messageID \<Rightarrow> int64" where
  "position_hash a = ledgerID a + 31 * entryID a"

text \<open>
  Modelled from the spec: \<^verbatim>\<open>messageIDIsBatch\<close> is not in this file; "a MessageID with
  batch size \<open>\<le> 1\<close> (or unset) is non-batched".
\<close>

definition is_batch :: "messageID \<Rightarrow> bool" where
  "is_batch a = (1 <s batchSize a)"

text \<open>
  Modelled from the spec: \<^verbatim>\<open>EarliestMessageID\<close> is not in this file; it is "the logical
  earliest possible MessageID", here below every identifier with non-negative
  coordinates.
\<close>

definition earliest :: messageID where
  "earliest = \<lparr>ledgerID = - 1, entryID = - 1, batchIdx = - 1, batchSize = 0\<rparr>"

text \<open>
  Modelled from the spec: the six operations on identifiers, none of them in this file,
  put together.
\<close>

definition message_ids :: "messageID messageIDs" where
  "message_ids =
     \<lparr>messageIDCompare = compare_positions,
      messageIDHash = position_hash,
      messageIDIsBatch = is_batch,
      EarliestMessageID = earliest,
      BatchIdx = batchIdx,
      BatchSize = batchSize\<rparr>"

text \<open>Entry 7 of ledger 1 as a batch of three, and three single messages.\<close>

definition batch3 :: "int32 \<Rightarrow> messageID" where
  "batch3 i = \<lparr>ledgerID = 1, entryID = 7, batchIdx = i, batchSize = 3\<rparr>"

definition single :: "int64 \<Rightarrow> messageID" where
  "single e = \<lparr>ledgerID = 1, entryID = e, batchIdx = - 1, batchSize = 0\<rparr>"

definition grouped :: "int \<Rightarrow> messageID ackGroupingTracker" where
  "grouped n = newAckGroupingTracker message_ids (Some \<lparr>MaxSize = n, MaxTime = 0\<rparr>)"

section \<open>Properties of the memory limit controller\<close>

lemma limit_ReleaseMemory [simp]: "limit (ReleaseMemory sz m) = limit m"
  by (simp add: ReleaseMemory_def Let_def)

lemma currentUsage_ReleaseMemory: "currentUsage (ReleaseMemory sz m) = currentUsage m - sz"
  by (simp add: ReleaseMemory_def Let_def)

lemma TryReserveMemory_loop_limit [simp]:
  "limit (snd (TryReserveMemory_loop sz others m)) = limit m"
  by (induction sz others m rule: TryReserveMemory_loop.induct) (simp_all add: Let_def)

lemma limit_TryReserveMemory [simp]: "limit (snd (TryReserveMemory sz m)) = limit m"
  unfolding TryReserveMemory_def by (rule TryReserveMemory_loop_limit)

lemma TryReserveMemory_eq:
  "TryReserveMemory sz m =
     (if 0 <s limit m \<and> limit m <s currentUsage m then (False, m)
      else (True, m\<lparr>currentUsage := currentUsage m + sz\<rparr>))"
  by (simp add: TryReserveMemory_def IsMemoryLimited_def Let_def)

lemma sint_add_le:
  fixes u s :: int64
  assumes "- (2 ^ 63) \<le> sint u + sint s"
  shows "sint (u + s) \<le> sint u + sint s"
proof -
  from assms have "signed_take_bit 63 (sint u + sint s) \<le> sint u + sint s"
    by (simp only: signed_take_bit_int_less_eq_self_iff)
  then show ?thesis by (simp add: sint_word_ariths)
qed

lemma sint_sub_eq:
  fixes u s :: int64
  assumes "0 \<le> sint s" and "- (2 ^ 63) \<le> sint u - sint s"
  shows "sint (u - s) = sint u - sint s"
proof -
  have "sint u < 2 ^ 63" using sint_lt [of u] by simp
  with assms have "sint u - sint s < 2 ^ 63" by linarith
  with assms(2) have "signed_take_bit 63 (sint u - sint s) = sint u - sint s"
    by (simp only: signed_take_bit_int_eq_self)
  then show ?thesis by (simp add: sint_word_ariths)
qed

lemma TryReserveMemory_loop_contended:
  "\<exists>current \<in> set (currentUsage m # others).
     TryReserveMemory_loop sz others m =
       (if 0 <s limit m \<and> limit m <s current then (False, m\<lparr>currentUsage := current\<rparr>)
        else (True, m\<lparr>currentUsage := current + sz\<rparr>))"
proof (induction others arbitrary: m)
  case Nil
  show ?case by (simp add: IsMemoryLimited_def Let_def)
next
  case (Cons seen others)
  show ?case
  proof (cases "IsMemoryLimited m \<and> limit m <s currentUsage m")
    case True
    then show ?thesis by (auto simp add: IsMemoryLimited_def Let_def)
  next
    case blocked: False
    show ?thesis
    proof (cases "seen = currentUsage m")
      case True
      with blocked show ?thesis by (auto simp add: IsMemoryLimited_def Let_def)
    next
      case False
      have "\<exists>c \<in> set (seen # others).
          TryReserveMemory_loop sz others (m\<lparr>currentUsage := seen\<rparr>) =
          (if 0 <s limit m \<and> limit m <s c then (False, m\<lparr>currentUsage := c\<rparr>)
           else (True, m\<lparr>currentUsage := c + sz\<rparr>))"
        using Cons.IH [of "m\<lparr>currentUsage := seen\<rparr>"] by (simp split del: if_split cong del: if_weak_cong)
      then obtain c where c: "c \<in> set (seen # others)"
        and eq: "TryReserveMemory_loop sz others (m\<lparr>currentUsage := seen\<rparr>) =
          (if 0 <s limit m \<and> limit m <s c then (False, m\<lparr>currentUsage := c\<rparr>)
           else (True, m\<lparr>currentUsage := c + sz\<rparr>))"
        by blast
      from blocked False have "TryReserveMemory_loop sz (seen # others) m =
          TryReserveMemory_loop sz others (m\<lparr>currentUsage := seen\<rparr>)"
        by (auto simp add: Let_def)
      with eq have "TryReserveMemory_loop sz (seen # others) m =
          (if 0 <s limit m \<and> limit m <s c then (False, m\<lparr>currentUsage := c\<rparr>)
           else (True, m\<lparr>currentUsage := c + sz\<rparr>))"
        by (simp only:)
      moreover from c have "c \<in> set (currentUsage m # seen # others)" by simp
      ultimately show ?thesis by (rule_tac x = c in bexI)
    qed
  qed
qed

lemma plain_ops_take: "plain_ops ops m \<Longrightarrow> plain_ops (take n ops) m"
proof (induction ops arbitrary: n m)
  case Nil
  then show ?case by simp
next
  case (Cons op ops)
  show ?case
  proof (cases n)
    case 0
    then show ?thesis by simp
  next
    case (Suc k)
    with Cons show ?thesis by (cases op) simp_all
  qed
qed

lemma run_ops_bound:
  assumes "0 <s limit m" and "plain_ops ops m"
    and "sint (currentUsage m) \<le> sint (limit m) + g"
    and "run_ops ops (m, g) = (m', g')"
  shows "sint (currentUsage m') \<le> sint (limit m) + g' \<and> limit m' = limit m"
  using assms
proof (induction ops arbitrary: m g)
  case Nil
  then show ?case by simp
next
  case (Cons op ops)
  show ?case
  proof (cases op)
    case (TryReserve sz)
    show ?thesis
    proof (cases "limit m <s currentUsage m")
      case True
      with Cons.prems TryReserve have "run_ops ops (m, g) = (m', g')" and "plain_ops ops m"
        by (simp_all add: TryReserveMemory_eq)
      with Cons.IH Cons.prems show ?thesis by blast
    next
      case False
      let ?m1 = "m\<lparr>currentUsage := currentUsage m + sz\<rparr>"
      from False Cons.prems TryReserve have run: "run_ops ops (?m1, sint sz) = (m', g')"
        and plain: "plain_ops ops ?m1"
        and low: "- (2 ^ 63) \<le> sint (currentUsage m) + sint sz"
        by (simp_all add: TryReserveMemory_eq)
      from False have "sint (currentUsage m) \<le> sint (limit m)"
        by (simp add: word_sless_alt)
      with sint_add_le [OF low]
      have "sint (currentUsage ?m1) \<le> sint (limit ?m1) + sint sz" by simp
      moreover from Cons.prems have "0 <s limit ?m1" by simp
      ultimately have "sint (currentUsage m') \<le> sint (limit ?m1) + g' \<and> limit m' = limit ?m1"
        using Cons.IH plain run by blast
      then show ?thesis by simp
    qed
  next
    case (Release sz)
    let ?m1 = "ReleaseMemory sz m"
    from Cons.prems Release have run: "run_ops ops (?m1, g) = (m', g')"
      and plain: "plain_ops ops ?m1" and nonneg: "0 \<le> sint sz"
      and low: "- (2 ^ 63) \<le> sint (currentUsage m) - sint sz"
      by simp_all
    from sint_sub_eq [OF nonneg low] nonneg Cons.prems(3)
    have "sint (currentUsage ?m1) \<le> sint (limit ?m1) + g"
      by (simp add: currentUsage_ReleaseMemory)
    moreover from Cons.prems have "0 <s limit ?m1" by simp
    ultimately have "sint (currentUsage m') \<le> sint (limit ?m1) + g' \<and> limit m' = limit ?m1"
      using Cons.IH plain run by blast
    then show ?thesis by simp
  qed
qed

text \<open>
  Claim C1. For every \<^verbatim>\<open>int64\<close> size and every controller state, \<^verbatim>\<open>TryReserveMemory\<close>
  returns false and leaves the controller unchanged exactly when the limit is enforced
  (\<open>limit > 0\<close>) and the usage it has read exceeds the limit; the test is on the usage
  read, not on that usage plus the size. Otherwise it advances \<^verbatim>\<open>currentUsage\<close> by the
  size and returns true. Under contention the same holds of the value read by the last
  iteration of the loop: the addition is applied to the value on which the
  compare-and-swap succeeded.
\<close>

theorem TryReserveMemory_decides_on_current_usage:
  "TryReserveMemory sz m =
     (if IsMemoryLimited m \<and> limit m <s CurrentUsage m then (False, m)
      else (True, m\<lparr>currentUsage := CurrentUsage m + sz\<rparr>))
   \<and> IsMemoryLimited m = (0 <s limit m)
   \<and> (\<exists>current \<in> set (currentUsage m # others).
        TryReserveMemory_loop sz others m =
          (if IsMemoryLimited m \<and> limit m <s current then (False, m\<lparr>currentUsage := current\<rparr>)
           else (True, m\<lparr>currentUsage := current + sz\<rparr>)))"
  using TryReserveMemory_loop_contended [of m others sz]
  by (simp add: TryReserveMemory_eq IsMemoryLimited_def CurrentUsage_def)

theorem TryReserveMemory_decides_on_current_usage_witness:
  "TryReserveMemory 5 \<lparr>limit = 10, currentUsage = 10, broadcasts = 0\<rparr> =
     (True, \<lparr>limit = 10, currentUsage = 15, broadcasts = 0\<rparr>)
   \<and> TryReserveMemory 5 \<lparr>limit = 10, currentUsage = 11, broadcasts = 0\<rparr> =
     (False, \<lparr>limit = 10, currentUsage = 11, broadcasts = 0\<rparr>)
   \<and> TryReserveMemory 5 \<lparr>limit = 0, currentUsage = 11, broadcasts = 0\<rparr> =
     (True, \<lparr>limit = 0, currentUsage = 16, broadcasts = 0\<rparr>)"
  using TryReserveMemory_decides_on_current_usage
      [of 5 "\<lparr>limit = 10, currentUsage = 10, broadcasts = 0\<rparr>" "[]"]
    TryReserveMemory_decides_on_current_usage
      [of 5 "\<lparr>limit = 10, currentUsage = 11, broadcasts = 0\<rparr>" "[]"]
    TryReserveMemory_decides_on_current_usage
      [of 5 "\<lparr>limit = 0, currentUsage = 11, broadcasts = 0\<rparr>" "[]"]
  by (simp add: CurrentUsage_def word_sless_alt)

text \<open>
  Claim C2, as stated: after every sequence of \<^verbatim>\<open>TryReserveMemory\<close> and
  \<^verbatim>\<open>ReleaseMemory\<close> calls on a controller with a positive limit, the usage exceeds the
  limit by at most the size of one granted reservation. It fails when a release is
  given a negative size: with limit 10, a granted reservation of 1 followed by
  \<^verbatim>\<open>ReleaseMemory(-100)\<close> leaves the usage at 101.
\<close>

theorem overshoot_unbounded_after_negative_release:
  "\<not> overshoot_bounded [TryReserve 1, Release (- 100)] (NewMemoryLimitController 10)"
  by (simp add: overshoot_bounded_def NewMemoryLimitController_def TryReserveMemory_eq
      ReleaseMemory_def CurrentUsage_def Let_def word_sless_alt word_sle_eq)

text \<open>
  Claim C2, amended. On a controller with a positive limit whose usage starts at or
  below the limit, along every sequence of \<^verbatim>\<open>TryReserveMemory\<close> and
  \<^verbatim>\<open>ReleaseMemory\<close> calls in which no negative size is released and no call wraps
  the 64-bit counter below its least value, the usage after every prefix of the
  sequence is at most the limit plus the size of the most recent granted reservation.
  For all sizes and states: a \<^verbatim>\<open>TryReserveMemory\<close> attempted while the usage exceeds
  a positive limit returns false and changes nothing, and a granted one started from a
  usage at or below the limit.
\<close>

theorem overshoot_bounded_by_last_granted_reservation:
  assumes "0 <s limit m" and "currentUsage m \<le>s limit m" and "plain_ops ops m"
  shows "overshoot_bounded (take n ops) m
    \<and> (0 <s limit c \<and> limit c <s currentUsage c \<longrightarrow> TryReserveMemory sz c = (False, c))
    \<and> (0 <s limit c \<and> TryReserveMemory sz c = (True, c') \<longrightarrow>
          currentUsage c \<le>s limit c \<and> currentUsage c' = currentUsage c + sz)"
proof -
  obtain m' g' where run: "run_ops (take n ops) (m, 0) = (m', g')"
    by (cases "run_ops (take n ops) (m, 0)")
  from assms(2) have "sint (currentUsage m) \<le> sint (limit m) + 0"
    by (simp add: word_sle_eq)
  with run_ops_bound [OF assms(1) plain_ops_take [OF assms(3)] _ run]
  have "sint (currentUsage m') \<le> sint (limit m) + g'" by blast
  with run have "overshoot_bounded (take n ops) m"
    by (simp add: overshoot_bounded_def CurrentUsage_def)
  moreover have "0 <s limit c \<and> limit c <s currentUsage c \<longrightarrow>
      TryReserveMemory sz c = (False, c)"
    by (simp add: TryReserveMemory_eq)
  moreover have "0 <s limit c \<and> TryReserveMemory sz c = (True, c') \<longrightarrow>
      currentUsage c \<le>s limit c \<and> currentUsage c' = currentUsage c + sz"
    by (auto simp add: TryReserveMemory_eq word_sle_eq word_sless_alt split: if_splits)
  ultimately show ?thesis by blast
qed

theorem overshoot_bounded_by_last_granted_reservation_witness:
  "overshoot_bounded
     [TryReserve 8, TryReserve 7, TryReserve 1, Release 7, TryReserve 3]
     (NewMemoryLimitController 10)
   \<and> TryReserveMemory 1 \<lparr>limit = 10, currentUsage = 15, broadcasts = 0\<rparr> =
       (False, \<lparr>limit = 10, currentUsage = 15, broadcasts = 0\<rparr>)"
proof -
  let ?ops = "[TryReserve 8, TryReserve 7, TryReserve 1, Release 7, TryReserve 3]"
  let ?m = "NewMemoryLimitController 10"
  have h1: "0 <s limit ?m" and h2: "currentUsage ?m \<le>s limit ?m"
    by (simp_all add: NewMemoryLimitController_def word_sless_alt word_sle_eq)
  have h3: "plain_ops ?ops ?m"
    by (simp add: NewMemoryLimitController_def TryReserveMemory_eq ReleaseMemory_def Let_def
        word_sless_alt word_sle_eq)
  from overshoot_bounded_by_last_granted_reservation [OF h1 h2 h3, of 5
      "\<lparr>limit = 10, currentUsage = 15, broadcasts = 0\<rparr>" 1]
  show ?thesis by (simp add: word_sless_alt)
qed

text \<open>
  Claim C8. \<^verbatim>\<open>ReleaseMemory(size)\<close> subtracts the size from \<^verbatim>\<open>currentUsage\<close> (one
  atomic add), and it broadcasts if and only if the usage before the call was above the
  limit and the usage after it is at or below the limit; every other release leaves the
  number of broadcasts unchanged. The source tests \<^verbatim>\<open>newUsage + size > limit\<close>; in
  wrapping 64-bit arithmetic \<^verbatim>\<open>newUsage + size\<close> is the old usage for every size.
\<close>

theorem ReleaseMemory_broadcasts_iff_crossing:
  "currentUsage (ReleaseMemory sz m) = currentUsage m - sz
   \<and> limit (ReleaseMemory sz m) = limit m
   \<and> broadcasts (ReleaseMemory sz m) =
       (if limit m <s currentUsage m \<and> currentUsage m - sz \<le>s limit m
        then broadcasts m + 1 else broadcasts m)"
  by (simp add: ReleaseMemory_def Let_def)

text \<open>
  Claim C9. The three operations are total functions of the size: the model has no
  failure value because the source has none (wrapping addition and atomic operations
  only), and the retry loop of \<^verbatim>\<open>TryReserveMemory\<close> ends. For every size,
  \<^verbatim>\<open>ReleaseMemory(size)\<close> has the effect on \<^verbatim>\<open>currentUsage\<close> of a forced reservation of
  \<^verbatim>\<open>-size\<close>; for a negative size it adds the absolute value of the size, in 64-bit
  arithmetic, and on the mathematical values whenever the sum fits in 64 bits.
\<close>

theorem negative_release_is_a_reservation:
  "(TryReserveMemory sz m = (False, m) \<or> TryReserveMemory sz m = (True, ForceReserveMemory sz m))
   \<and> currentUsage (ForceReserveMemory sz m) = currentUsage m + sz
   \<and> currentUsage (ReleaseMemory sz m) = currentUsage (ForceReserveMemory (- sz) m)
   \<and> (sz <s 0 \<longrightarrow>
        currentUsage (ReleaseMemory sz m) = currentUsage m + word_of_int \<bar>sint sz\<bar>)
   \<and> (sz <s 0 \<and> sint (currentUsage m) + \<bar>sint sz\<bar> < 2 ^ 63 \<longrightarrow>
        sint (currentUsage (ReleaseMemory sz m)) = sint (currentUsage m) + \<bar>sint sz\<bar>)"
proof -
  have abs_neg: "word_of_int \<bar>sint sz\<bar> = - sz" if "sz <s 0"
  proof -
    from that have "\<bar>sint sz\<bar> = - sint sz" by (simp add: word_sless_alt)
    then show ?thesis by simp
  qed
  have fits: "sint (currentUsage m - sz) = sint (currentUsage m) + \<bar>sint sz\<bar>"
    if neg: "sz <s 0" and small: "sint (currentUsage m) + \<bar>sint sz\<bar> < 2 ^ 63"
  proof -
    from neg have a: "\<bar>sint sz\<bar> = - sint sz" and n: "sint sz < 0"
      by (simp_all add: word_sless_alt)
    have "- (2 ^ 63) \<le> sint (currentUsage m)" using sint_ge [of "currentUsage m"] by simp
    with n have lo: "- (2 ^ 63) \<le> sint (currentUsage m) - sint sz" by linarith
    from small a have hi: "sint (currentUsage m) - sint sz < 2 ^ 63" by simp
    from lo hi have "signed_take_bit 63 (sint (currentUsage m) - sint sz) =
        sint (currentUsage m) - sint sz"
      by (simp only: signed_take_bit_int_eq_self)
    with a show ?thesis by (simp add: sint_word_ariths)
  qed
  show ?thesis
    using abs_neg fits
    by (simp add: TryReserveMemory_eq ForceReserveMemory_def currentUsage_ReleaseMemory)
qed

theorem negative_release_is_a_reservation_witness:
  "currentUsage (ReleaseMemory (- 5) \<lparr>limit = 10, currentUsage = 100, broadcasts = 0\<rparr>) = 105
   \<and> sint (currentUsage (ReleaseMemory (- 5) \<lparr>limit = 10, currentUsage = 100, broadcasts = 0\<rparr>))
       = 105"
  using negative_release_is_a_reservation
    [of "- 5" "\<lparr>limit = 10, currentUsage = 100, broadcasts = 0\<rparr>"]
  by (simp add: word_sless_alt ForceReserveMemory_def)

section \<open>Properties of the acknowledgment grouping tracker\<close>

subsection \<open>Flushing and the buffer\<close>

lemma ackList_calls: "ackList ids t = t\<lparr>ackIndividualCalls := ackIndividualCalls t @ ids\<rparr>"
  unfolding ackList_def
  by (induction ids arbitrary: t) (simp_all add: ackIndividual_def)

lemma flushIndividualAcks_Inr:
  assumes "index c \<le> length (singleAcks c)" and "None \<notin> set (take (index c) (singleAcks c))"
  shows "flushIndividualAcks M c =
    Inr (c\<lparr>ackIndividualCalls := ackIndividualCalls c @ map the (take (index c) (singleAcks c)),
           pendingAcks := fold (flushIndividualAcks_body M) (map the (take (index c) (singleAcks c)))
                            (pendingAcks c),
           index := 0\<rparr>)"
  using assms by (simp add: flushIndividualAcks_def ackList_calls Let_def)

lemma addAndCheckIfFull_Inr:
  assumes "index c < length (singleAcks c)"
  shows "\<exists>c'. addAndCheckIfFull M mid c = Inr (index c + 1 = length (singleAcks c), c')
    \<and> singleAcks c' = (singleAcks c)[index c := Some mid]
    \<and> index c' = index c + 1
    \<and> lastCumulativeAck c' = lastCumulativeAck c
    \<and> cumulativeAckRequired c' = cumulativeAckRequired c
    \<and> ackIndividualCalls c' = ackIndividualCalls c
    \<and> ackCumulativeCalls c' = ackCumulativeCalls c"
  using assms
  by (simp add: addAndCheckIfFull_def Let_def split: option.split prod.split)

lemma take_Suc_update:
  assumes "i < length xs"
  shows "take (Suc i) (xs[i := x]) = take i xs @ [x]"
  using assms by (simp add: take_Suc_conv_app_nth)

lemma flushCumulativeAck_fields [simp]:
  "singleAcks (flushCumulativeAck c) = singleAcks c"
  "index (flushCumulativeAck c) = index c"
  "pendingAcks (flushCumulativeAck c) = pendingAcks c"
  "lastCumulativeAck (flushCumulativeAck c) = lastCumulativeAck c"
  "ackIndividualCalls (flushCumulativeAck c) = ackIndividualCalls c"
  by (simp_all add: flushCumulativeAck_def ackCumulative_def)

lemma tryUpdateLastCumulativeAck_fields [simp]:
  "singleAcks (tryUpdateLastCumulativeAck M a c) = singleAcks c"
  "index (tryUpdateLastCumulativeAck M a c) = index c"
  "pendingAcks (tryUpdateLastCumulativeAck M a c) = pendingAcks c"
  "ackIndividualCalls (tryUpdateLastCumulativeAck M a c) = ackIndividualCalls c"
  by (simp_all add: tryUpdateLastCumulativeAck_def)

lemma flush_Inr:
  assumes "buffer_ok c"
  shows "\<exists>c'. flush M c = Inr c' \<and> index c' = 0
    \<and> singleAcks c' = singleAcks c
    \<and> lastCumulativeAck c' = lastCumulativeAck c
    \<and> pendingAcks c' = fold (flushIndividualAcks_body M)
         (map the (take (index c) (singleAcks c))) (pendingAcks c)"
proof -
  from assms have "index c \<le> length (singleAcks c)"
    and "None \<notin> set (take (index c) (singleAcks c))"
    by (simp_all add: buffer_ok_def)
  from flushIndividualAcks_Inr [OF this, of M] show ?thesis
    by (simp add: flush_def)
qed

lemma loop_iteration_ackIndividualCh:
  assumes ok: "buffer_ok c"
  shows "\<exists>c'. loop_iteration M options (ackIndividualCh mid) c = Inr (c', nothing, True)
    \<and> buffer_ok c' \<and> length (singleAcks c') = length (singleAcks c)
    \<and> lastCumulativeAck c' = lastCumulativeAck c"
proof -
  from ok have lt: "index c < length (singleAcks c)"
    and nn: "None \<notin> set (take (index c) (singleAcks c))"
    by (simp_all add: buffer_ok_def)
  from addAndCheckIfFull_Inr [OF lt, of M mid] obtain c1 where
    add: "addAndCheckIfFull M mid c = Inr (index c + 1 = length (singleAcks c), c1)"
    and sa: "singleAcks c1 = (singleAcks c)[index c := Some mid]"
    and ix: "index c1 = index c + 1"
    and wm: "lastCumulativeAck c1 = lastCumulativeAck c"
    by blast
  from lt nn sa ix have nn1: "None \<notin> set (take (index c1) (singleAcks c1))"
    by (simp add: take_Suc_update)
  from lt sa ix have le1: "index c1 \<le> length (singleAcks c1)" by simp
  show ?thesis
  proof (cases "index c + 1 = length (singleAcks c)")
    case True
    from flushIndividualAcks_Inr [OF le1 nn1, of M] obtain c2 where
      fl: "flushIndividualAcks M c1 = Inr c2" and "index c2 = 0"
      and "singleAcks c2 = singleAcks c1" and "lastCumulativeAck c2 = lastCumulativeAck c1"
      by simp
    with lt sa wm have "buffer_ok c2 \<and> length (singleAcks c2) = length (singleAcks c)
        \<and> lastCumulativeAck c2 = lastCumulativeAck c"
      by (auto simp add: buffer_ok_def)
    with add fl True show ?thesis by (simp add: loop_iteration_def)
  next
    case False
    with lt sa ix nn1 wm have "buffer_ok c1 \<and> length (singleAcks c1) = length (singleAcks c)
        \<and> lastCumulativeAck c1 = lastCumulativeAck c"
      by (simp add: buffer_ok_def)
    with add False show ?thesis by (simp add: loop_iteration_def)
  qed
qed

text \<open>
  A running tracker never panics: every iteration of the loop on a well-formed buffer
  returns, with a well-formed buffer.
\<close>

lemma loop_iteration_buffer_ok:
  assumes ok: "buffer_ok c"
  shows "\<exists>c' answer goes_on. loop_iteration M options ev c = Inr (c', answer, goes_on)
    \<and> buffer_ok c' \<and> length (singleAcks c') = length (singleAcks c)"
proof (cases ev)
  case (ackIndividualCh mid)
  with loop_iteration_ackIndividualCh [OF ok, of M options mid] show ?thesis by auto
next
  case (ackCumulativeCh a)
  let ?c1 = "tryUpdateLastCumulativeAck M a c"
  from ok have "buffer_ok ?c1" "buffer_ok (flushCumulativeAck ?c1)"
    by (simp_all add: buffer_ok_def)
  with ackCumulativeCh show ?thesis by (auto simp add: loop_iteration_def Let_def)
next
  case (duplicateIDCh mid)
  with ok show ?thesis by (auto simp add: loop_iteration_def)
next
  case timeoutC
  from flush_Inr [OF ok, of M] obtain c' where "flush M c = Inr c'" "index c' = 0"
    "singleAcks c' = singleAcks c"
    by blast
  with timeoutC ok show ?thesis by (auto simp add: loop_iteration_def buffer_ok_def)
next
  case (flushCh ft)
  from flush_Inr [OF ok, of M] obtain c' where "flush M c = Inr c'" "index c' = 0"
    "singleAcks c' = singleAcks c"
    by blast
  with flushCh ok show ?thesis
    by (auto simp add: loop_iteration_def buffer_ok_def clean_def Let_def)
qed

lemma run_never_panics:
  "buffer_ok c \<Longrightarrow>
    run M evs (timedAckGroupingTracker options c running) = Inl Blocked
    \<or> (\<exists>c' running'. run M evs (timedAckGroupingTracker options c running) =
          Inr (timedAckGroupingTracker options c' running') \<and> buffer_ok c')"
proof (induction evs arbitrary: c running)
  case Nil
  then show ?case by simp
next
  case (Cons ev evs)
  show ?case
  proof (cases running)
    case False
    then show ?thesis by simp
  next
    case True
    from loop_iteration_buffer_ok [OF Cons.prems, of M options ev] obtain c1 answer goes_on
      where it: "loop_iteration M options ev c = Inr (c1, answer, goes_on)" and ok1: "buffer_ok c1"
      by blast
    from Cons.IH [OF ok1, of goes_on] it True show ?thesis by simp
  qed
qed

subsection \<open>The cumulative watermark\<close>

text \<open>The order on identifiers.\<close>

lemma compare_flip:
  assumes "messageID_total_order M"
  shows "(0 \<le> messageIDCompare M x y) = (messageIDCompare M y x \<le> 0)"
proof -
  from assms have "(messageIDCompare M x y < 0) = (0 < messageIDCompare M y x)"
    by (simp add: messageID_total_order_def)
  then show ?thesis by linarith
qed

lemma compare_refl:
  assumes "messageID_total_order M"
  shows "messageIDCompare M x x = 0"
proof -
  from assms have "(messageIDCompare M x x < 0) = (0 < messageIDCompare M x x)"
    by (simp add: messageID_total_order_def)
  then show ?thesis by linarith
qed

lemma compare_trans:
  assumes "messageID_total_order M"
    and "messageIDCompare M x y \<le> 0" and "messageIDCompare M y z \<le> 0"
  shows "messageIDCompare M x z \<le> 0"
  using assms unfolding messageID_total_order_def by blast

lemma tryUpdateLastCumulativeAck_watermark:
  assumes ord: "messageID_total_order M"
  shows "messageIDCompare M a (lastCumulativeAck (tryUpdateLastCumulativeAck M a c)) \<le> 0
    \<and> messageIDCompare M (lastCumulativeAck c)
         (lastCumulativeAck (tryUpdateLastCumulativeAck M a c)) \<le> 0"
proof (cases "messageIDCompare M (lastCumulativeAck c) a < 0")
  case True
  then show ?thesis
    by (simp add: tryUpdateLastCumulativeAck_def compare_refl [OF ord])
next
  case False
  then have "0 \<le> messageIDCompare M (lastCumulativeAck c) a" by simp
  then have "messageIDCompare M a (lastCumulativeAck c) \<le> 0"
    by (simp add: compare_flip [OF ord])
  with False show ?thesis
    by (simp add: tryUpdateLastCumulativeAck_def compare_refl [OF ord])
qed

lemma loop_iteration_watermark:
  assumes ord: "messageID_total_order M" and ok: "buffer_ok c"
    and "ev \<noteq> flushCh flushAndClean" and "ev \<noteq> flushCh flushAndClose"
  shows "\<exists>c' answer. loop_iteration M options ev c = Inr (c', answer, True)
    \<and> buffer_ok c'
    \<and> messageIDCompare M (lastCumulativeAck c) (lastCumulativeAck c') \<le> 0
    \<and> (\<forall>a. ev = ackCumulativeCh a \<longrightarrow> messageIDCompare M a (lastCumulativeAck c') \<le> 0)"
proof (cases ev)
  case (ackIndividualCh mid)
  with loop_iteration_ackIndividualCh [OF ok, of M options mid] show ?thesis
    by (auto simp add: compare_refl [OF ord])
next
  case (ackCumulativeCh a)
  let ?c1 = "tryUpdateLastCumulativeAck M a c"
  from ok have "buffer_ok ?c1" "buffer_ok (flushCumulativeAck ?c1)"
    by (simp_all add: buffer_ok_def)
  with ackCumulativeCh tryUpdateLastCumulativeAck_watermark [OF ord, of a c] show ?thesis
    by (simp add: loop_iteration_def Let_def)
next
  case (duplicateIDCh mid)
  with ok show ?thesis by (simp add: loop_iteration_def compare_refl [OF ord])
next
  case timeoutC
  from flush_Inr [OF ok, of M] obtain c' where "flush M c = Inr c'" "index c' = 0"
    "singleAcks c' = singleAcks c" "lastCumulativeAck c' = lastCumulativeAck c"
    by blast
  with timeoutC ok show ?thesis
    by (auto simp add: loop_iteration_def buffer_ok_def compare_refl [OF ord])
next
  case (flushCh ft)
  with assms have ft: "ft = flushOnly" by (cases ft) simp_all
  from flush_Inr [OF ok, of M] obtain c' where "flush M c = Inr c'" "index c' = 0"
    "singleAcks c' = singleAcks c" "lastCumulativeAck c' = lastCumulativeAck c"
    by blast
  with flushCh ft ok show ?thesis
    by (auto simp add: loop_iteration_def buffer_ok_def compare_refl [OF ord])
qed

lemma run_watermark:
  assumes ord: "messageID_total_order M"
  shows "buffer_ok c \<Longrightarrow> flushCh flushAndClean \<notin> set evs \<Longrightarrow> flushCh flushAndClose \<notin> set evs \<Longrightarrow>
    \<exists>c'. run M evs (timedAckGroupingTracker options c True) = Inr (timedAckGroupingTracker options c' True)
      \<and> buffer_ok c'
      \<and> messageIDCompare M (lastCumulativeAck c) (lastCumulativeAck c') \<le> 0
      \<and> (\<forall>a. ackCumulativeCh a \<in> set evs \<longrightarrow> messageIDCompare M a (lastCumulativeAck c') \<le> 0)"
proof (induction evs arbitrary: c)
  case Nil
  then show ?case by (simp add: compare_refl [OF ord])
next
  case (Cons ev evs)
  from Cons.prems have "ev \<noteq> flushCh flushAndClean" "ev \<noteq> flushCh flushAndClose" by auto
  from loop_iteration_watermark [OF ord Cons.prems(1) this, of options]
  obtain c1 answer where it: "loop_iteration M options ev c = Inr (c1, answer, True)"
    and ok1: "buffer_ok c1"
    and up1: "messageIDCompare M (lastCumulativeAck c) (lastCumulativeAck c1) \<le> 0"
    and cum1: "\<forall>a. ev = ackCumulativeCh a \<longrightarrow> messageIDCompare M a (lastCumulativeAck c1) \<le> 0"
    by blast
  from Cons.prems have "flushCh flushAndClean \<notin> set evs" "flushCh flushAndClose \<notin> set evs"
    by simp_all
  from Cons.IH [OF ok1 this] obtain c' where
    run': "run M evs (timedAckGroupingTracker options c1 True) =
      Inr (timedAckGroupingTracker options c' True)"
    and ok': "buffer_ok c'"
    and up': "messageIDCompare M (lastCumulativeAck c1) (lastCumulativeAck c') \<le> 0"
    and cum': "\<forall>a. ackCumulativeCh a \<in> set evs \<longrightarrow> messageIDCompare M a (lastCumulativeAck c') \<le> 0"
    by blast
  from it run' have "run M (ev # evs) (timedAckGroupingTracker options c True) =
      Inr (timedAckGroupingTracker options c' True)"
    by simp
  moreover from up1 up' have "messageIDCompare M (lastCumulativeAck c) (lastCumulativeAck c') \<le> 0"
    by (rule compare_trans [OF ord])
  moreover have "\<forall>a. ackCumulativeCh a \<in> set (ev # evs) \<longrightarrow>
      messageIDCompare M a (lastCumulativeAck c') \<le> 0"
  proof (intro allI impI)
    fix a assume "ackCumulativeCh a \<in> set (ev # evs)"
    then consider "ev = ackCumulativeCh a" | "ackCumulativeCh a \<in> set evs" by auto
    then show "messageIDCompare M a (lastCumulativeAck c') \<le> 0"
    proof cases
      case 1
      with cum1 have "messageIDCompare M a (lastCumulativeAck c1) \<le> 0" by simp
      from this up' show ?thesis by (rule compare_trans [OF ord])
    next
      case 2
      with cum' show ?thesis by simp
    qed
  qed
  ultimately show ?case using ok' by blast
qed


subsection \<open>Construction\<close>

lemma newAckGroupingTracker_timed:
  assumes "1 < MaxSize options"
  shows "\<exists>c. newAckGroupingTracker M (Some options) = timedAckGroupingTracker options c True
    \<and> buffer_ok c \<and> index c = 0 \<and> length (singleAcks c) = nat (MaxSize options)
    \<and> pendingAcks c = Map.empty \<and> lastCumulativeAck c = EarliestMessageID M
    \<and> ackIndividualCalls c = [] \<and> ackCumulativeCalls c = []"
  using assms by (simp add: newAckGroupingTracker_def buffer_ok_def)

lemma tracker_isDuplicate_timed:
  "tracker_isDuplicate M mid (timedAckGroupingTracker options c True) = Inr (isDuplicate M mid c)"
  by (simp add: tracker_isDuplicate_def loop_iteration_def)

lemma message_ids_total_order: "messageID_total_order message_ids"
  unfolding messageID_total_order_def message_ids_def compare_positions_def
  by (auto simp add: word_sless_alt split: if_splits)

text \<open>
  Claim C3. On a running grouped tracker, after every sequence of calls and timer
  events that contains neither \<^verbatim>\<open>flushAndClean\<close> nor \<^verbatim>\<open>close\<close>, \<^verbatim>\<open>isDuplicate(id)\<close>
  returns true for every identifier at most some identifier passed to
  \<^verbatim>\<open>addCumulative\<close> in the sequence, whether or not a flush occurred: the watermark
  \<^verbatim>\<open>lastCumulativeAck\<close> moves only when the candidate is strictly greater, so it never
  decreases and is at least every identifier submitted. (After \<^verbatim>\<open>close\<close> no call of the
  tracker returns.)
\<close>

theorem cumulative_ids_are_duplicates:
  assumes "messageID_total_order M" and "buffer_ok c"
    and "flushCh flushAndClean \<notin> set evs" and "flushCh flushAndClose \<notin> set evs"
    and "ackCumulativeCh a \<in> set evs" and "messageIDCompare M mid a \<le> 0"
  shows "isDuplicate_after M evs (timedAckGroupingTracker options c True) mid = Inr True
    \<and> (\<exists>c'. run M evs (timedAckGroupingTracker options c True) =
              Inr (timedAckGroupingTracker options c' True)
          \<and> messageIDCompare M a (lastCumulativeAck c') \<le> 0
          \<and> messageIDCompare M (lastCumulativeAck c) (lastCumulativeAck c') \<le> 0)"
proof -
  from run_watermark [OF assms(1-4), of options] assms(5) obtain c' where
    run': "run M evs (timedAckGroupingTracker options c True) =
      Inr (timedAckGroupingTracker options c' True)"
    and up: "messageIDCompare M (lastCumulativeAck c) (lastCumulativeAck c') \<le> 0"
    and cum: "messageIDCompare M a (lastCumulativeAck c') \<le> 0"
    by blast
  from assms(6) cum have "messageIDCompare M mid (lastCumulativeAck c') \<le> 0"
    by (rule compare_trans [OF assms(1)])
  then have "0 \<le> messageIDCompare M (lastCumulativeAck c') mid"
    by (simp add: compare_flip [OF assms(1)])
  then have "isDuplicate M mid c'" by (simp add: isDuplicate_def)
  with run' have "isDuplicate_after M evs (timedAckGroupingTracker options c True) mid = Inr True"
    by (simp add: isDuplicate_after_def tracker_isDuplicate_timed)
  with run' up cum show ?thesis by blast
qed

theorem cumulative_ids_are_duplicates_witness:
  "isDuplicate_after message_ids
     [ackCumulativeCh (single 5), ackIndividualCh (single 9), ackCumulativeCh (single 3), timeoutC]
     (grouped 3) (single 4) = Inr True"
proof -
  let ?evs = "[ackCumulativeCh (single 5), ackIndividualCh (single 9),
               ackCumulativeCh (single 3), timeoutC]"
  obtain c where g: "grouped 3 = timedAckGroupingTracker \<lparr>MaxSize = 3, MaxTime = 0\<rparr> c True"
    and ok: "buffer_ok c"
    using newAckGroupingTracker_timed [of "\<lparr>MaxSize = 3, MaxTime = 0\<rparr>" message_ids]
    by (auto simp add: grouped_def)
  have h3: "flushCh flushAndClean \<notin> set ?evs" and h4: "flushCh flushAndClose \<notin> set ?evs"
    and h5: "ackCumulativeCh (single 5) \<in> set ?evs"
    by simp_all
  have h6: "messageIDCompare message_ids (single 4) (single 5) \<le> 0"
    by (simp add: message_ids_def compare_positions_def single_def word_sless_alt)
  from cumulative_ids_are_duplicates [OF message_ids_total_order ok h3 h4 h5 h6]
  show ?thesis by (simp add: g)
qed

text \<open>
  Claim C10. For the grouped tracker (\<^verbatim>\<open>MaxSize > 1\<close>, or the default options),
  \<^verbatim>\<open>isDuplicate(EarliestMessageID())\<close> returns true right after construction and
  right after any \<^verbatim>\<open>flushAndClean\<close>, with no acknowledgment submitted: the
  watermark starts, and is reset, at the earliest identifier and the test is the
  non-strict \<^verbatim>\<open>messageIDCompare(lastCumulativeAck, id) >= 0\<close>. The one fact used of
  the comparison is that the earliest identifier is not below itself.
\<close>

theorem earliest_is_duplicate_without_acknowledgment:
  assumes "0 \<le> messageIDCompare M (EarliestMessageID M) (EarliestMessageID M)"
    and "1 < MaxSize options" and "buffer_ok c"
  shows "tracker_isDuplicate M (EarliestMessageID M) (newAckGroupingTracker M (Some options)) = Inr True
    \<and> tracker_isDuplicate M (EarliestMessageID M) (newAckGroupingTracker M None) = Inr True
    \<and> isDuplicate_after M [flushCh flushAndClean] (timedAckGroupingTracker options' c True)
        (EarliestMessageID M) = Inr True"
proof -
  from flush_Inr [OF assms(3), of M] obtain c1 where fl: "flush M c = Inr c1" by blast
  from assms(1) have "isDuplicate M (EarliestMessageID M) (clean M c1)"
    by (simp add: isDuplicate_def clean_def Let_def)
  with fl have "isDuplicate_after M [flushCh flushAndClean] (timedAckGroupingTracker options' c True)
        (EarliestMessageID M) = Inr True"
    by (simp add: isDuplicate_after_def loop_iteration_def tracker_isDuplicate_timed)
  with assms(1,2) show ?thesis
    by (simp add: newAckGroupingTracker_def tracker_isDuplicate_timed isDuplicate_def)
qed

theorem earliest_is_duplicate_without_acknowledgment_witness:
  "tracker_isDuplicate message_ids earliest (grouped 2) = Inr True
   \<and> isDuplicate_after message_ids [flushCh flushAndClean] (grouped 2) earliest = Inr True"
proof -
  obtain c where g: "grouped 2 = timedAckGroupingTracker \<lparr>MaxSize = 2, MaxTime = 0\<rparr> c True"
    and ok: "buffer_ok c"
    using newAckGroupingTracker_timed [of "\<lparr>MaxSize = 2, MaxTime = 0\<rparr>" message_ids]
    by (auto simp add: grouped_def)
  have h1: "0 \<le> messageIDCompare message_ids (EarliestMessageID message_ids)
      (EarliestMessageID message_ids)"
    by (simp add: message_ids_def compare_positions_def)
  have h2: "1 < MaxSize \<lparr>MaxSize = 2, MaxTime = 0\<rparr>" by simp
  have e: "EarliestMessageID message_ids = earliest" by (simp add: message_ids_def)
  from earliest_is_duplicate_without_acknowledgment [OF h1 h2 ok,
      of "\<lparr>MaxSize = 2, MaxTime = 0\<rparr>"]
  show ?thesis unfolding e g [symmetric] grouped_def [symmetric] by blast
qed




subsection \<open>Filling the buffer\<close>

lemma flushIndividualAcks_body_removes:
  "flushIndividualAcks_body M mid pending (messageIDHash M mid) = None"
  by (simp add: flushIndividualAcks_body_def Let_def split: option.split)

lemma flushIndividualAcks_body_keeps_None:
  "pending k = None \<Longrightarrow> flushIndividualAcks_body M mid pending k = None"
  by (simp add: flushIndividualAcks_body_def Let_def split: option.split)

lemma fold_flushIndividualAcks_body_keeps_None:
  "pending k = None \<Longrightarrow> fold (flushIndividualAcks_body M) ids pending k = None"
  by (induction ids arbitrary: pending) (simp_all add: flushIndividualAcks_body_keeps_None)

lemma fold_flushIndividualAcks_body_removes:
  "mid \<in> set ids \<Longrightarrow>
    fold (flushIndividualAcks_body M) ids pending (messageIDHash M mid) = None"
proof (induction ids arbitrary: pending)
  case Nil
  then show ?case by simp
next
  case (Cons x ids)
  show ?case
  proof (cases "mid = x")
    case True
    then show ?thesis
      by (simp add: fold_flushIndividualAcks_body_keeps_None flushIndividualAcks_body_removes)
  next
    case False
    with Cons show ?thesis by simp
  qed
qed

text \<open>An acknowledgment that does not fill the buffer, and one that does.\<close>

lemma loop_iteration_add_not_full:
  assumes "index c + 1 < length (singleAcks c)"
  shows "\<exists>c'. loop_iteration M options (ackIndividualCh mid) c = Inr (c', nothing, True)
    \<and> singleAcks c' = (singleAcks c)[index c := Some mid]
    \<and> index c' = index c + 1
    \<and> ackIndividualCalls c' = ackIndividualCalls c"
proof -
  from assms have lt: "index c < length (singleAcks c)" by simp
  from addAndCheckIfFull_Inr [OF lt, of M mid] assms show ?thesis
    by (auto simp add: loop_iteration_def)
qed


lemma run_adds_not_full:
  "index c + length ids < length (singleAcks c) \<Longrightarrow>
    \<exists>c'. run M (map ackIndividualCh ids) (timedAckGroupingTracker options c True) =
            Inr (timedAckGroupingTracker options c' True)
      \<and> length (singleAcks c') = length (singleAcks c)
      \<and> index c' = index c + length ids
      \<and> take (index c') (singleAcks c') = take (index c) (singleAcks c) @ map Some ids
      \<and> ackIndividualCalls c' = ackIndividualCalls c"
proof (induction ids arbitrary: c)
  case Nil
  then show ?case by simp
next
  case (Cons mid ids)
  from Cons.prems have nf: "index c + 1 < length (singleAcks c)" by simp
  from loop_iteration_add_not_full [OF nf, of M options mid] obtain c1 where
    it: "loop_iteration M options (ackIndividualCh mid) c = Inr (c1, nothing, True)"
    and sa: "singleAcks c1 = (singleAcks c)[index c := Some mid]"
    and ix: "index c1 = index c + 1"
    and calls: "ackIndividualCalls c1 = ackIndividualCalls c"
    by blast
  from Cons.prems sa ix have "index c1 + length ids < length (singleAcks c1)" by simp
  from Cons.IH [OF this] obtain c' where
    run': "run M (map ackIndividualCh ids) (timedAckGroupingTracker options c1 True) =
            Inr (timedAckGroupingTracker options c' True)"
    and len: "length (singleAcks c') = length (singleAcks c1)"
    and ix': "index c' = index c1 + length ids"
    and tk: "take (index c') (singleAcks c') = take (index c1) (singleAcks c1) @ map Some ids"
    and calls': "ackIndividualCalls c' = ackIndividualCalls c1"
    by blast
  from nf sa ix have "take (index c1) (singleAcks c1) = take (index c) (singleAcks c) @ [Some mid]"
    by (simp add: take_Suc_update)
  with tk have "take (index c') (singleAcks c') =
      take (index c) (singleAcks c) @ map Some (mid # ids)" by simp
  moreover from it run' have "run M (map ackIndividualCh (mid # ids))
      (timedAckGroupingTracker options c True) = Inr (timedAckGroupingTracker options c' True)"
    by simp
  ultimately show ?case using len ix' calls' sa ix calls by simp
qed

lemma run_append:
  "run M (evs @ evs') t = (case run M evs t of Inl e \<Rightarrow> Inl e | Inr t' \<Rightarrow> run M evs' t')"
  by (induction evs arbitrary: t) (simp_all split: sum.split)





subsection \<open>Batches\<close>

lemma batch_of_three:
  "fold bitset_Set [0 ..< nat (sint (3 :: int32))] (bitset_New (uint_of_int32 3)) =
     [True, True, True]"
  by code_simp

lemma uint_of_int32_small [simp]:
  "uint_of_int32 0 = 0" "uint_of_int32 1 = 1" "uint_of_int32 2 = 2"
  by (simp_all add: uint_of_int32_def)

lemma loop_iteration_add_unseen_batch:
  assumes "index c + 1 < length (singleAcks c)"
    and "pendingAcks c (messageIDHash M mid) = None" and "messageIDIsBatch M mid"
  shows "loop_iteration M options (ackIndividualCh mid) c =
    Inr (c\<lparr>singleAcks := (singleAcks c)[index c := Some mid],
           index := index c + 1,
           pendingAcks := (pendingAcks c)(messageIDHash M mid \<mapsto>
             Some (bitset_Clear (uint_of_int32 (BatchIdx M mid))
                    (fold bitset_Set [0 ..< nat (sint (BatchSize M mid))]
                       (bitset_New (uint_of_int32 (BatchSize M mid))))))\<rparr>,
         nothing, True)"
  using assms by (simp add: loop_iteration_def addAndCheckIfFull_def Let_def)

lemma loop_iteration_add_seen_batch:
  assumes "index c + 1 < length (singleAcks c)"
    and "pendingAcks c (messageIDHash M mid) = Some (Some b)"
  shows "loop_iteration M options (ackIndividualCh mid) c =
    Inr (c\<lparr>singleAcks := (singleAcks c)[index c := Some mid],
           index := index c + 1,
           pendingAcks := (pendingAcks c)(messageIDHash M mid \<mapsto>
             Some (bitset_Clear (uint_of_int32 (BatchIdx M mid)) b))\<rparr>,
         nothing, True)"
  using assms by (simp add: loop_iteration_def addAndCheckIfFull_def Let_def)

lemma run_adds_then_flush:
  assumes room: "index c + length ids < length (singleAcks c)"
    and nn: "None \<notin> set (take (index c) (singleAcks c))"
    and "mid \<in> set ids" and "ft \<noteq> flushAndClose"
  shows "pendingAcks_after M (map ackIndividualCh ids @ [flushCh ft])
      (timedAckGroupingTracker options c True) (messageIDHash M mid) = Inr None"
proof -
  from run_adds_not_full [OF room, of M options] obtain c1 where
    run1: "run M (map ackIndividualCh ids) (timedAckGroupingTracker options c True) =
            Inr (timedAckGroupingTracker options c1 True)"
    and len1: "length (singleAcks c1) = length (singleAcks c)"
    and ix1: "index c1 = index c + length ids"
    and tk1: "take (index c1) (singleAcks c1) = take (index c) (singleAcks c) @ map Some ids"
    by blast
  from tk1 nn have nn1: "None \<notin> set (take (index c1) (singleAcks c1))" by auto
  with room len1 ix1 have ok1: "buffer_ok c1" by (simp add: buffer_ok_def)
  from flush_Inr [OF ok1, of M] obtain c2 where fl: "flush M c1 = Inr c2"
    and pa: "pendingAcks c2 = fold (flushIndividualAcks_body M)
         (map the (take (index c1) (singleAcks c1))) (pendingAcks c1)"
    by blast
  from tk1 assms(3) have "mid \<in> set (map the (take (index c1) (singleAcks c1)))"
    by (simp add: comp_def)
  from fold_flushIndividualAcks_body_removes [OF this] pa
  have gone: "pendingAcks c2 (messageIDHash M mid) = None" by simp
  have "pendingAcks (clean M c2) (messageIDHash M mid) = None"
    by (simp add: clean_def Let_def)
  with gone run1 fl assms(4) show ?thesis
    by (simp add: pendingAcks_after_def run_append loop_iteration_def Let_def)
qed


text \<open>
  Claim C5, as stated: with a batch of size 3 at one position and no flush, once
  \<^verbatim>\<open>add\<close> has been called for the indices 0, 2 and 1 the pending-ack entry of the
  position is evicted at that moment. It is not: \<^verbatim>\<open>addAndCheckIfFull\<close> never deletes
  from \<^verbatim>\<open>pendingAcks\<close>, and in a tracker with ten slots the entry is still there
  after the three calls, with its three bits cleared.
\<close>

theorem batch_entry_stays_until_flush:
  "pendingAcks_after message_ids
     [ackIndividualCh (batch3 0), ackIndividualCh (batch3 2), ackIndividualCh (batch3 1)]
     (grouped 10) (position_hash (batch3 1)) = Inr (Some (Some [False, False, False]))"
  by code_simp

text \<open>
  Claim C5, amended. On a running grouped tracker with room for three more
  identifiers, for a batch of size 3 at a position not yet in the pending-ack index
  and a watermark below the batch: after \<^verbatim>\<open>add\<close> for the indices 0 and 2,
  \<^verbatim>\<open>isDuplicate\<close> returns false for index 1 and true for the indices 0 and 2; once
  \<^verbatim>\<open>add\<close> is also called for index 1 the entry of the position has all its bits
  cleared and \<^verbatim>\<open>isDuplicate\<close> is true for index 1 as well, and the entry stays in the
  index until the next flush of the individual acknowledgments, which evicts it.
\<close>

theorem batch_index_acknowledgments:
  assumes room: "index c + 3 < length (singleAcks c)"
    and nn: "None \<notin> set (take (index c) (singleAcks c))"
    and unseen: "pendingAcks c key = None"
    and key: "messageIDHash M m0 = key" "messageIDHash M m1 = key" "messageIDHash M m2 = key"
    and batch: "messageIDIsBatch M m0" "messageIDIsBatch M m1" "messageIDIsBatch M m2"
    and sz: "BatchSize M m0 = 3"
    and idx: "BatchIdx M m0 = 0" "BatchIdx M m1 = 1" "BatchIdx M m2 = 2"
    and below: "messageIDCompare M (lastCumulativeAck c) m1 < 0"
  shows "isDuplicate_after M [ackIndividualCh m0, ackIndividualCh m2]
           (timedAckGroupingTracker options c True) m1 = Inr False
    \<and> isDuplicate_after M [ackIndividualCh m0, ackIndividualCh m2]
           (timedAckGroupingTracker options c True) m0 = Inr True
    \<and> isDuplicate_after M [ackIndividualCh m0, ackIndividualCh m2]
           (timedAckGroupingTracker options c True) m2 = Inr True
    \<and> pendingAcks_after M [ackIndividualCh m0, ackIndividualCh m2, ackIndividualCh m1]
           (timedAckGroupingTracker options c True) key = Inr (Some (Some [False, False, False]))
    \<and> isDuplicate_after M [ackIndividualCh m0, ackIndividualCh m2, ackIndividualCh m1]
           (timedAckGroupingTracker options c True) m1 = Inr True
    \<and> pendingAcks_after M [ackIndividualCh m0, ackIndividualCh m2, ackIndividualCh m1, flushCh flushOnly]
           (timedAckGroupingTracker options c True) key = Inr None"
proof -
  let ?c1 = "c\<lparr>singleAcks := (singleAcks c)[index c := Some m0], index := index c + 1,
      pendingAcks := (pendingAcks c)(key \<mapsto> Some [False, True, True])\<rparr>"
  let ?c2 = "?c1\<lparr>singleAcks := (singleAcks ?c1)[index ?c1 := Some m2], index := index ?c1 + 1,
      pendingAcks := (pendingAcks ?c1)(key \<mapsto> Some [False, True, False])\<rparr>"
  let ?c3 = "?c2\<lparr>singleAcks := (singleAcks ?c2)[index ?c2 := Some m1], index := index ?c2 + 1,
      pendingAcks := (pendingAcks ?c2)(key \<mapsto> Some [False, False, False])\<rparr>"
  from room have r0: "index c + 1 < length (singleAcks c)" by simp
  have fresh: "fold bitset_Set [0 ..< nat (sint (BatchSize M m0))]
      (bitset_New (uint_of_int32 (BatchSize M m0))) = [True, True, True]"
    unfolding sz by (rule batch_of_three)
  from unseen key(1) have u: "pendingAcks c (messageIDHash M m0) = None" by simp
  from loop_iteration_add_unseen_batch [OF r0 u batch(1), of options, unfolded fresh]
  have s1: "loop_iteration M options (ackIndividualCh m0) c = Inr (?c1, nothing, True)"
    by (simp add: key idx bitset_Clear_def)
  from room have r1: "index ?c1 + 1 < length (singleAcks ?c1)" by simp
  have p1: "pendingAcks ?c1 (messageIDHash M m2) = Some (Some [False, True, True])"
    by (simp add: key)
  from loop_iteration_add_seen_batch [OF r1 p1, of options]
  have s2: "loop_iteration M options (ackIndividualCh m2) ?c1 = Inr (?c2, nothing, True)"
    by (simp add: key idx bitset_Clear_def)
  from room have r2: "index ?c2 + 1 < length (singleAcks ?c2)" by simp
  have p2: "pendingAcks ?c2 (messageIDHash M m1) = Some (Some [False, True, False])"
    by (simp add: key)
  from loop_iteration_add_seen_batch [OF r2 p2, of options]
  have s3: "loop_iteration M options (ackIndividualCh m1) ?c2 = Inr (?c3, nothing, True)"
    by (simp add: key idx bitset_Clear_def)
  from s1 s2 have run2: "run M [ackIndividualCh m0, ackIndividualCh m2]
      (timedAckGroupingTracker options c True) = Inr (timedAckGroupingTracker options ?c2 True)"
    by simp
  from s1 s2 s3 have run3: "run M [ackIndividualCh m0, ackIndividualCh m2, ackIndividualCh m1]
      (timedAckGroupingTracker options c True) = Inr (timedAckGroupingTracker options ?c3 True)"
    by simp
  from below have d1: "\<not> isDuplicate M m1 ?c2"
    by (simp add: isDuplicate_def key batch idx bitset_Test_def)
  have d0: "isDuplicate M m0 ?c2"
    by (simp add: isDuplicate_def key batch idx bitset_Test_def)
  have d2: "isDuplicate M m2 ?c2"
    by (simp add: isDuplicate_def key batch idx bitset_Test_def)
  have d3: "isDuplicate M m1 ?c3"
    by (simp add: isDuplicate_def key batch idx bitset_Test_def)
  have "index c + length [m0, m2, m1] < length (singleAcks c)" using room by simp
  from run_adds_then_flush [OF this nn, of m0 flushOnly M options]
  have fl: "pendingAcks_after M [ackIndividualCh m0, ackIndividualCh m2, ackIndividualCh m1, flushCh flushOnly]
           (timedAckGroupingTracker options c True) key = Inr None"
    by (simp add: key)
  from run2 run3 d0 d1 d2 d3 fl show ?thesis
    by (simp add: isDuplicate_after_def pendingAcks_after_def tracker_isDuplicate_timed)
qed

theorem batch_index_acknowledgments_witness:
  "isDuplicate_after message_ids
     [ackIndividualCh (batch3 0), ackIndividualCh (batch3 2)] (grouped 10) (batch3 1) = Inr False
   \<and> isDuplicate_after message_ids
     [ackIndividualCh (batch3 0), ackIndividualCh (batch3 2)] (grouped 10) (batch3 0) = Inr True
   \<and> isDuplicate_after message_ids
     [ackIndividualCh (batch3 0), ackIndividualCh (batch3 2)] (grouped 10) (batch3 2) = Inr True
   \<and> pendingAcks_after message_ids
     [ackIndividualCh (batch3 0), ackIndividualCh (batch3 2), ackIndividualCh (batch3 1),
      flushCh flushOnly] (grouped 10) (position_hash (batch3 1)) = Inr None"
proof -
  let ?options = "\<lparr>MaxSize = 10, MaxTime = 0\<rparr>"
  obtain c where g: "grouped 10 = timedAckGroupingTracker ?options c True"
    and c: "index c = 0" "length (singleAcks c) = 10" "pendingAcks c = Map.empty"
      "lastCumulativeAck c = earliest"
    using newAckGroupingTracker_timed [of ?options message_ids]
    by (auto simp add: grouped_def message_ids_def)
  have room: "index c + 3 < length (singleAcks c)"
    and nn: "None \<notin> set (take (index c) (singleAcks c))"
    and unseen: "pendingAcks c (position_hash (batch3 1)) = None"
    by (simp_all add: c)
  have key: "messageIDHash message_ids (batch3 0) = position_hash (batch3 1)"
    "messageIDHash message_ids (batch3 1) = position_hash (batch3 1)"
    "messageIDHash message_ids (batch3 2) = position_hash (batch3 1)"
    by (simp_all add: message_ids_def position_hash_def batch3_def)
  have batch: "messageIDIsBatch message_ids (batch3 0)" "messageIDIsBatch message_ids (batch3 1)"
    "messageIDIsBatch message_ids (batch3 2)"
    by (simp_all add: message_ids_def is_batch_def batch3_def word_sless_alt)
  have sz: "BatchSize message_ids (batch3 0) = 3"
    and idx: "BatchIdx message_ids (batch3 0) = 0" "BatchIdx message_ids (batch3 1) = 1"
      "BatchIdx message_ids (batch3 2) = 2"
    by (simp_all add: message_ids_def batch3_def)
  have below: "messageIDCompare message_ids (lastCumulativeAck c) (batch3 1) < 0"
    by (simp add: c message_ids_def compare_positions_def earliest_def batch3_def word_sless_alt)
  from batch_index_acknowledgments [OF room nn unseen key batch sz idx below, of ?options]
  show ?thesis unfolding g by simp
qed



end
